theory Spec2Isabelle
  imports Main
begin

section \<open>Python text primitives used by m3u\_weaver.py\<close>

text \<open>
  Text is modelled as \<^typ>\<open>string\<close> over ASCII: the classification and case tables below
  cover the ASCII range of Python's \<^verbatim>\<open>str.isspace\<close>, \<^verbatim>\<open>str.isalnum\<close> and
  \<^verbatim>\<open>str.lower\<close>. Python integers are \<^typ>\<open>int\<close>.
\<close>

datatype py_error = ZeroDivisionError | IndexError

definition LF :: char where
  "LF = CHR 0x0A"

definition CR :: char where
  "CR = CHR 0x0D"

definition ESC :: char where
  "ESC = CHR 0x1B"

definition isspace :: "char \<Rightarrow> bool" where
  "isspace c = (c \<in> set [CHR 0x09, CHR 0x0A, CHR 0x0B, CHR 0x0C, CHR 0x0D,
                          CHR 0x1C, CHR 0x1D, CHR 0x1E, CHR 0x1F, CHR 0x20])"

definition strip :: "string \<Rightarrow> string" where
  "strip s = rev (dropWhile isspace (rev (dropWhile isspace s)))"

definition lower_char :: "char \<Rightarrow> char" where
  "lower_char c =
     (case map_of (zip ''ABCDEFGHIJKLMNOPQRSTUVWXYZ'' ''abcdefghijklmnopqrstuvwxyz'') c of
        Some d \<Rightarrow> d
      | None \<Rightarrow> c)"

definition lower :: "string \<Rightarrow> string" where
  "lower s = map lower_char s"

definition isalnum :: "char \<Rightarrow> bool" where
  "isalnum c =
     (c \<in> set ''ABCDEFGHIJKLMNOPQRSTUVWXYZabcdefghijklmnopqrstuvwxyz0123456789'')"

definition startswith :: "string \<Rightarrow> string \<Rightarrow> bool" where
  "startswith s p = (take (length p) s = p)"

text \<open>\<^verbatim>\<open>sub in s\<close> on strings: some position of \<open>s\<close> starts with \<open>sub\<close>.\<close>

fun py_in :: "string \<Rightarrow> string \<Rightarrow> bool" where
  "py_in sub [] = (sub = [])"
| "py_in sub (c # cs) = (startswith (c # cs) sub \<or> py_in sub cs)"

text \<open>\<^verbatim>\<open>s.replace(old, new)\<close>: leftmost, non-overlapping occurrences, scanned once.\<close>

function replace :: "string \<Rightarrow> string \<Rightarrow> string \<Rightarrow> string" where
  "replace [] new s = new @ concat (map (\<lambda>c. c # new) s)"
| "replace (p # ps) new [] = []"
| "replace (p # ps) new (c # cs) =
     (if startswith (c # cs) (p # ps)
      then new @ replace (p # ps) new (drop (length (p # ps)) (c # cs))
      else c # replace (p # ps) new cs)"
  by pat_completeness auto
termination
  by (relation "measure (\<lambda>(old, new, s). length s)") auto

text \<open>\<^verbatim>\<open>s.split(sep)\<close> for a one-character separator, and \<^verbatim>\<open>sep.join(ws)\<close>.\<close>

fun split_sep :: "char \<Rightarrow> string \<Rightarrow> string list" where
  "split_sep sep [] = [[]]"
| "split_sep sep (c # cs) =
     (if c = sep then [] # split_sep sep cs
      else (case split_sep sep cs of [] \<Rightarrow> [[c]] | w # ws \<Rightarrow> (c # w) # ws))"

fun join :: "string \<Rightarrow> string list \<Rightarrow> string" where
  "join sep [] = []"
| "join sep [w] = w"
| "join sep (w # v # ws) = w @ sep @ join sep (v # ws)"

text \<open>\<^verbatim>\<open>xs[i]\<close>: a negative index counts from the end, out of range raises.\<close>

definition py_get :: "'a list \<Rightarrow> int \<Rightarrow> py_error + 'a" where
  "py_get xs i =
     (if 0 \<le> i \<and> i < int (length xs) then Inr (xs ! nat i)
      else if i < 0 \<and> - int (length xs) \<le> i then Inr (xs ! nat (int (length xs) + i))
      else Inl IndexError)"

subsection \<open>pathlib on POSIX\<close>

text \<open>
  \<^verbatim>\<open>Path(p)\<close> splits off the root (one slash, or exactly two), then keeps the components
  between slashes that are neither empty nor \<^verbatim>\<open>.\<close>; \<^verbatim>\<open>.name\<close> is the last component
  and \<^verbatim>\<open>.as_posix()\<close> prints root and components, or \<^verbatim>\<open>.\<close> when both are empty.
\<close>

definition path_root :: "string \<Rightarrow> string" where
  "path_root p =
     (if \<not> startswith p ''/'' then []
      else if \<not> startswith (drop 1 p) ''/'' \<or> startswith (drop 2 p) ''/'' then ''/''
      else ''//'')"

definition path_tail :: "string \<Rightarrow> string list" where
  "path_tail p =
     filter (\<lambda>x. x \<noteq> [] \<and> x \<noteq> ''.'') (split_sep CHR ''/'' (drop (length (path_root p)) p))"

definition path_name :: "string \<Rightarrow> string" where
  "path_name p = (if path_tail p = [] then [] else last (path_tail p))"

definition as_posix :: "string \<Rightarrow> string" where
  "as_posix p =
     (let r = path_root p @ join ''/'' (path_tail p) in if r = [] then ''.'' else r)"

subsection \<open>Files\<close>

text \<open>
  The working directory maps a name to a text file or to an entry that exists but cannot
  be opened as one (a directory). \<open>readlines\<close> is text-mode reading with universal
  newlines: \<^verbatim>\<open>\n\<close>, \<^verbatim>\<open>\r\n\<close> and \<^verbatim>\<open>\r\<close> each end a line and are returned as \<^verbatim>\<open>\n\<close>.
\<close>

datatype node = File string | Directory

type_synonym filesystem = "string \<rightharpoonup> node"

fun readlines :: "string \<Rightarrow> string list" where
  "readlines [] = []"
| "readlines (c # cs) =
     (if c = CR then
        (case cs of
           [] \<Rightarrow> [[LF]]
         | d # ds \<Rightarrow> if d = LF then [LF] # readlines ds else [LF] # readlines cs)
      else if c = LF then [LF] # readlines cs
      else (case readlines cs of [] \<Rightarrow> [[c]] | l # ls \<Rightarrow> (c # l) # ls))"

section \<open>The session: class MusicPlaylistManager\<close>

text \<open>
  One record field for each attribute that \<^verbatim>\<open>__init__\<close> sets and the interactive loop
  reads or writes. \<^verbatim>\<open>music_dir\<close> and \<^verbatim>\<open>music_extensions\<close> serve the directory scan only,
  which happens before the loop and is represented by its result \<open>music_files\<close>.
\<close>

record session =
  music_files :: "string list"
  selected_files :: "int set"
  current_index :: int
  page_size :: int
  current_page :: int
  screen_initialized :: bool
  existing_playlist :: "string set"
  append_mode :: bool
  target_playlist_file :: "string option"
  search_mode :: bool
  search_keyword :: string
  filtered_files :: "int list"

text \<open>The state at the first iteration of \<^verbatim>\<open>handle_input\<close>: \<^verbatim>\<open>__init__\<close>, then the scan.\<close>

definition init_session :: "string list \<Rightarrow> int \<Rightarrow> session" where
  "init_session files psize =
     \<lparr> music_files = files, selected_files = {}, current_index = 0, page_size = psize,
       current_page = 0, screen_initialized = False, existing_playlist = {},
       append_mode = False, target_playlist_file = None, search_mode = False,
       search_keyword = [], filtered_files = [] \<rparr>"

subsection \<open>load\_existing\_playlist, is\_song\_in\_playlist\<close>

datatype load_message = PlaylistNotFound string | PlaylistLoaded string nat | PlaylistLoadError

definition load_line :: "string set \<Rightarrow> string \<Rightarrow> string set" where
  "load_line idx raw =
     (let line = strip raw
      in if line \<noteq> [] \<and> \<not> startswith line ''#'' then insert (as_posix line) idx else idx)"

text \<open>
  The set is cleared before the file is opened, so a file that exists but cannot be read
  leaves it empty and reports an error; \<open>append_mode\<close> and the target are set last.
\<close>

definition load_existing_playlist ::
  "session \<Rightarrow> filesystem \<Rightarrow> string \<Rightarrow> (bool \<times> load_message) \<times> session" where
  "load_existing_playlist s fs playlist_file =
     (case fs playlist_file of
        None \<Rightarrow> ((False, PlaylistNotFound playlist_file), s)
      | Some Directory \<Rightarrow> ((False, PlaylistLoadError), s\<lparr>existing_playlist := {}\<rparr>)
      | Some (File content) \<Rightarrow>
          (let idx = foldl load_line {} (readlines content)
           in ((True, PlaylistLoaded playlist_file (card idx)),
               s\<lparr>existing_playlist := idx,
                 target_playlist_file := Some playlist_file,
                 append_mode := True\<rparr>)))"

definition is_song_in_playlist :: "session \<Rightarrow> string \<Rightarrow> bool" where
  "is_song_in_playlist s file_path =
     (if \<not> append_mode s then False else as_posix file_path \<in> existing_playlist s)"

subsection \<open>search\_music, clear\_search, get\_current\_display\_files\<close>

text \<open>The loop over \<^verbatim>\<open>enumerate(self.music_files)\<close>, with the running index \<open>i\<close>.\<close>

fun search_loop :: "string \<Rightarrow> int \<Rightarrow> string list \<Rightarrow> int list" where
  "search_loop kw i [] = []"
| "search_loop kw i (file_path # rest) =
     (if py_in kw (lower (path_name file_path))
      then i # search_loop kw (i + 1) rest
      else search_loop kw (i + 1) rest)"

definition search_music :: "session \<Rightarrow> string \<Rightarrow> session" where
  "search_music s keyword =
     (if strip keyword = [] then
        s\<lparr>search_mode := False, search_keyword := [], filtered_files := [],
          current_index := 0, current_page := 0\<rparr>
      else
        s\<lparr>search_keyword := lower (strip keyword),
          filtered_files := search_loop (lower (strip keyword)) 0 (music_files s),
          search_mode := True, current_index := 0, current_page := 0\<rparr>)"

definition clear_search :: "session \<Rightarrow> session" where
  "clear_search s =
     s\<lparr>search_mode := False, search_keyword := [], filtered_files := [],
       current_index := 0, current_page := 0\<rparr>"

definition get_current_display_files :: "session \<Rightarrow> int list" where
  "get_current_display_files s =
     (if search_mode s then filtered_files s else map int [0..<length (music_files s)])"

subsection \<open>search\_input, select\_existing\_playlist\<close>

text \<open>\<open>line\<close> is what the user types at the keyword prompt.\<close>

definition search_input :: "session \<Rightarrow> string \<Rightarrow> session" where
  "search_input s line =
     (let keyword = strip line;
          s1 = (if keyword \<noteq> [] then
                  (let s2 = search_music s keyword
                   in if length (filtered_files s2) > 0 then s2 else clear_search s2)
                else s)
      in s1\<lparr>screen_initialized := False\<rparr>)"

text \<open>
  The numbered menu over the \<^verbatim>\<open>*.m3u\<close> files of the working directory is represented by
  its outcome \<open>choice\<close>: the playlist the user picked, or \<open>None\<close> when there was none to
  pick or the user entered 0.
\<close>

definition select_existing_playlist :: "session \<Rightarrow> filesystem \<Rightarrow> string option \<Rightarrow> session" where
  "select_existing_playlist s fs choice =
     (case choice of
        None \<Rightarrow> s\<lparr>screen_initialized := False\<rparr>
      | Some selected_playlist \<Rightarrow>
          (snd (load_existing_playlist s fs selected_playlist))\<lparr>screen_initialized := False\<rparr>)"

subsection \<open>save\_playlist\<close>

text \<open>
  What \<^verbatim>\<open>save_playlist\<close> and the quit key print, with the numbers and names reported.
\<close>

datatype message =
    QuitWithoutSaving
  | NothingSelected
  | AllAlreadyInPlaylist
  | PreparingToAdd nat "string option"
  | SkippingDuplicates nat
  | AppendCancelled
  | Added nat "string option"
  | AppendFailed
  | SelectedCount nat
  | SavedTo string
  | Contains nat
  | SaveFailed

definition clean_path :: "string \<Rightarrow> string" where
  "clean_path file_path = replace ''&amp;'' ''&'' (replace ''&nbsp;'' '' '' file_path)"

text \<open>The append-mode loop over the sorted selection: new songs and the duplicate count.\<close>

fun partition_selected ::
  "session \<Rightarrow> int list \<Rightarrow> py_error + (string list \<times> nat)" where
  "partition_selected s [] = Inr ([], 0)"
| "partition_selected s (idx # rest) =
     (case py_get (music_files s) idx of
        Inl e \<Rightarrow> Inl e
      | Inr file_path \<Rightarrow>
          (case partition_selected s rest of
             Inl e \<Rightarrow> Inl e
           | Inr (new_songs, duplicate_count) \<Rightarrow>
               if \<not> is_song_in_playlist s file_path
               then Inr (file_path # new_songs, duplicate_count)
               else Inr (new_songs, duplicate_count + 1)))"

text \<open>
  The create-mode loop runs inside the \<^verbatim>\<open>with open(...)\<close> block: an index out of range
  ends it with what was written so far, and the handler then reports a failure.
\<close>

fun write_selected :: "string list \<Rightarrow> int list \<Rightarrow> string \<Rightarrow> bool \<times> string" where
  "write_selected files [] written = (True, written)"
| "write_selected files (idx # rest) written =
     (case py_get files idx of
        Inl e \<Rightarrow> (False, written)
      | Inr file_path \<Rightarrow> write_selected files rest (written @ clean_path file_path @ [LF]))"

definition playlist_file_name :: "string \<Rightarrow> string" where
  "playlist_file_name line =
     (let playlist_name = strip line;
          playlist_name = (if playlist_name = [] then ''playlist'' else playlist_name);
          playlist_name = strip (filter (\<lambda>c. isalnum c \<or> c \<in> set '' -_'') playlist_name)
      in playlist_name @ ''.m3u'')"

text \<open>
  \<open>line\<close> is what the user types at the prompt of the mode: the confirmation in append
  mode, the playlist name in create mode. The result is the returned flag, the session,
  the files and the messages printed.
\<close>

definition save_playlist ::
  "session \<Rightarrow> filesystem \<Rightarrow> string \<Rightarrow>
   py_error + (bool \<times> session \<times> filesystem \<times> message list)" where
  "save_playlist s fs line =
     (if selected_files s = {} then Inr (False, s, fs, [NothingSelected])
      else if append_mode s then
        (case partition_selected s (sorted_list_of_set (selected_files s)) of
           Inl e \<Rightarrow> Inl e
         | Inr (new_songs, duplicate_count) \<Rightarrow>
             if new_songs = [] then Inr (False, s, fs, [AllAlreadyInPlaylist])
             else
               (let out = PreparingToAdd (length new_songs) (target_playlist_file s) #
                          (if duplicate_count > 0 then [SkippingDuplicates duplicate_count]
                           else [])
                in if lower (strip line) \<noteq> ''y'' then
                     Inr (False, s, fs, out @ [AppendCancelled])
                   else
                     (case target_playlist_file s of
                        None \<Rightarrow> Inr (False, s, fs, out @ [AppendFailed])
                      | Some target \<Rightarrow>
                          (case fs target of
                             Some Directory \<Rightarrow> Inr (False, s, fs, out @ [AppendFailed])
                           | Some (File old) \<Rightarrow>
                               Inr (True, s,
                                    fs(target \<mapsto>
                                       File (old @ concat (map (\<lambda>p. clean_path p @ [LF]) new_songs))),
                                    out @ [Added (length new_songs) (Some target)])
                           | None \<Rightarrow>
                               Inr (True, s,
                                    fs(target \<mapsto>
                                       File (concat (map (\<lambda>p. clean_path p @ [LF]) new_songs))),
                                    out @ [Added (length new_songs) (Some target)])))))
      else
        (let playlist_file = playlist_file_name line;
             out = [SelectedCount (card (selected_files s))]
         in case fs playlist_file of
              Some Directory \<Rightarrow> Inr (False, s, fs, out @ [SaveFailed])
            | _ \<Rightarrow>
                (let selected_indices = sorted_list_of_set (selected_files s);
                     (ok, written) =
                       write_selected (music_files s) selected_indices (''#EXTM3U'' @ [LF])
                 in if ok then
                      Inr (True, s, fs(playlist_file \<mapsto> File written),
                           out @ [SavedTo playlist_file, Contains (length selected_indices)])
                    else
                      Inr (False, s, fs(playlist_file \<mapsto> File written), out @ [SaveFailed]))))"

subsection \<open>display\_page\<close>

definition active_len :: "session \<Rightarrow> int" where
  "active_len s =
     (if search_mode s then int (length (filtered_files s)) else int (length (music_files s)))"

text \<open>
  The page count as \<^verbatim>\<open>handle_input\<close> computes it, for a page size other than 0 (each
  use below raises \<open>ZeroDivisionError\<close> first when the page size is 0).
\<close>

definition total_pages :: "session \<Rightarrow> int" where
  "total_pages s = (active_len s + page_size s - 1) div page_size s"

text \<open>
  Rendering is output only. What it does to the session is \<^verbatim>\<open>init_screen\<close>'s flag, and it
  divides by the page size when there is something to show.
\<close>

definition display_page :: "session \<Rightarrow> py_error + session" where
  "display_page s =
     (if active_len s > 0 \<and> page_size s = 0 then Inl ZeroDivisionError
      else Inr (s\<lparr>screen_initialized := True\<rparr>))"

subsection \<open>handle\_input\<close>

text \<open>
  \<^verbatim>\<open>getch\<close> reads one character of standard input and, when that character is ESC, two
  more; a read at the end of the input returns what is left. The result is the key and the
  input that remains.
\<close>

definition getch :: "string \<Rightarrow> string \<times> string" where
  "getch stdin =
     (let ch = take 1 stdin; rest = drop 1 stdin
      in if ch = [ESC] then (ch @ take 2 rest, drop 2 rest) else (ch, rest))"

text \<open>
  One iteration reads a key (what \<^verbatim>\<open>getch\<close> returned) and, for the keys that open a
  prompt, the line typed there or the playlist picked from the menu.
\<close>

record user_input =
  key :: string
  typed_line :: string
  picked :: "string option"

datatype outcome =
    Continue session
  | Returned bool session filesystem "message list"
  | Raised py_error

text \<open>The space key: the catalog index under the cursor enters or leaves the selection.\<close>

definition toggle :: "session \<Rightarrow> int \<Rightarrow> session" where
  "toggle s idx =
     (if idx \<in> selected_files s then s\<lparr>selected_files := selected_files s - {idx}\<rparr>
      else s\<lparr>selected_files := insert idx (selected_files s)\<rparr>)"

definition key_space :: "session \<Rightarrow> outcome" where
  "key_space s =
     (if search_mode s then
        (if current_index s < int (length (filtered_files s)) then
           (case py_get (filtered_files s) (current_index s) of
              Inl e \<Rightarrow> Raised e
            | Inr real_idx \<Rightarrow> Continue (toggle s real_idx))
         else Continue s)
      else Continue (toggle s (current_index s)))"

definition key_up :: "session \<Rightarrow> outcome" where
  "key_up s =
     (if current_index s > 0 then
        (let s1 = s\<lparr>current_index := current_index s - 1\<rparr>
         in if current_index s1 < current_page s1 * page_size s1
            then Continue (s1\<lparr>current_page := max 0 (current_page s1 - 1)\<rparr>)
            else Continue s1)
      else Continue s)"

definition key_down :: "session \<Rightarrow> outcome" where
  "key_down s =
     (let max_index = active_len s - 1
      in if current_index s < max_index then
           (let s1 = s\<lparr>current_index := current_index s + 1\<rparr>
            in if current_index s1 \<ge> (current_page s1 + 1) * page_size s1 then
                 (if page_size s1 = 0 then Raised ZeroDivisionError
                  else Continue
                         (s1\<lparr>current_page := min (total_pages s1 - 1) (current_page s1 + 1)\<rparr>))
               else Continue s1)
         else Continue s)"

definition key_enter :: "session \<Rightarrow> outcome" where
  "key_enter s =
     (if page_size s = 0 then Raised ZeroDivisionError
      else if total_pages s = 0 then Raised ZeroDivisionError
      else
        (let s1 = s\<lparr>current_page := (current_page s + 1) mod total_pages s\<rparr>
         in Continue (s1\<lparr>current_index := current_page s1 * page_size s1\<rparr>)))"

text \<open>Page Up and the left arrow share one body, Page Down and the right arrow another.\<close>

definition key_prev_page :: "session \<Rightarrow> outcome" where
  "key_prev_page s =
     (if current_page s > 0 then
        (let s1 = s\<lparr>current_page := current_page s - 1\<rparr>
         in Continue (s1\<lparr>current_index := current_page s1 * page_size s1\<rparr>))
      else Continue s)"

definition key_next_page :: "session \<Rightarrow> outcome" where
  "key_next_page s =
     (if page_size s = 0 then Raised ZeroDivisionError
      else if current_page s < total_pages s - 1 then
        (let s1 = s\<lparr>current_page := current_page s + 1\<rparr>
         in Continue (s1\<lparr>current_index := current_page s1 * page_size s1\<rparr>))
      else Continue s)"

text \<open>The \<^verbatim>\<open>if\<close>/\<^verbatim>\<open>elif\<close> chain on the key, in the order of the source.\<close>

definition handle_key :: "session \<Rightarrow> filesystem \<Rightarrow> user_input \<Rightarrow> outcome" where
  "handle_key s fs inp =
     (let k = key inp
      in if k = ''q'' \<or> k = ''Q'' then Returned False s fs [QuitWithoutSaving]
         else if k = ''s'' \<or> k = ''S'' then
           (case save_playlist s fs (typed_line inp) of
              Inl e \<Rightarrow> Raised e
            | Inr (saved, s1, fs1, out) \<Rightarrow> Returned saved s1 fs1 out)
         else if k = ''a'' \<or> k = ''A'' then
           Continue (if \<not> search_mode s then select_existing_playlist s fs (picked inp) else s)
         else if k = ''/'' then Continue (search_input s (typed_line inp))
         else if k = [ESC] then Continue (if search_mode s then clear_search s else s)
         else if k = '' '' then key_space s
         else if k = ESC # ''[A'' then key_up s
         else if k = ESC # ''[B'' then key_down s
         else if k = [CR] \<or> k = [LF] then key_enter s
         else if k = ESC # ''[5~'' then key_prev_page s
         else if k = ESC # ''[6~'' then key_next_page s
         else if k = ESC # ''[D'' then key_prev_page s
         else if k = ESC # ''[C'' then key_next_page s
         else Continue s)"

text \<open>One pass through the body of \<^verbatim>\<open>while True\<close>: render, then dispatch the key.\<close>

definition step :: "session \<Rightarrow> filesystem \<Rightarrow> user_input \<Rightarrow> outcome" where
  "step s fs inp =
     (case display_page s of Inl e \<Rightarrow> Raised e | Inr s1 \<Rightarrow> handle_key s1 fs inp)"

text \<open>
  The loop over the keys typed so far: \<open>Continue\<close> when it waits for the next key,
  \<open>Returned\<close> when quit or save left it, \<open>Raised\<close> when an exception did.
\<close>

fun handle_input :: "session \<Rightarrow> filesystem \<Rightarrow> user_input list \<Rightarrow> outcome" where
  "handle_input s fs [] = Continue s"
| "handle_input s fs (inp # rest) =
     (case step s fs inp of Continue s1 \<Rightarrow> handle_input s1 fs rest | r \<Rightarrow> r)"

definition outcome_session :: "outcome \<Rightarrow> session option" where
  "outcome_session r =
     (case r of Continue s \<Rightarrow> Some s | Returned saved s fs out \<Rightarrow> Some s | Raised e \<Rightarrow> None)"

text \<open>
  The states the loop can be in: \<^verbatim>\<open>run\<close> enters it only when the scan found a track, and
  the page size is positive (the first rendering divides by it).
\<close>

inductive reachable :: "session \<Rightarrow> bool" where
  reachable_init: "files \<noteq> [] \<Longrightarrow> 0 < psize \<Longrightarrow> reachable (init_session files psize)"
| reachable_step: "reachable s \<Longrightarrow> step s fs inp = Continue s1 \<Longrightarrow> reachable s1"

text \<open>
  The arrow keys, as \<^verbatim>\<open>getch\<close> returns them: ESC and the two characters that follow it.
\<close>

definition press :: "string \<Rightarrow> user_input" where
  "press k = \<lparr> key = k, typed_line = [], picked = None \<rparr>"

definition type_after :: "string \<Rightarrow> string \<Rightarrow> user_input" where
  "type_after k l = \<lparr> key = k, typed_line = l, picked = None \<rparr>"

definition pick_after :: "string \<Rightarrow> string \<Rightarrow> user_input" where
  "pick_after k f = \<lparr> key = k, typed_line = [], picked = Some f \<rparr>"

definition UP :: string where
  "UP = ESC # ''[A''"

definition DOWN :: string where
  "DOWN = ESC # ''[B''"

definition LEFT :: string where
  "LEFT = ESC # ''[D''"

definition RIGHT :: string where
  "RIGHT = ESC # ''[C''"

section \<open>Specification-level notions\<close>

text \<open>The invariant of the interactive loop.\<close>

definition session_inv :: "session \<Rightarrow> bool" where
  "session_inv s =
     (music_files s \<noteq> [] \<and> 0 < page_size s \<and>
      (search_mode s \<longrightarrow>
         filtered_files s \<noteq> [] \<and>
         (\<forall>i \<in> set (filtered_files s). 0 \<le> i \<and> i < int (length (music_files s)))) \<and>
      0 \<le> current_index s \<and> current_index s < active_len s \<and>
      current_page s * page_size s \<le> current_index s \<and>
      current_index s < (current_page s + 1) * page_size s \<and>
      selected_files s \<subseteq> {0..<int (length (music_files s))})"

text \<open>
  The catalog index under the cursor: the entry of the active sequence at the cursor's
  position, if the cursor is on one.
\<close>

definition cursor_target :: "session \<Rightarrow> int option" where
  "cursor_target s =
     (let active = get_current_display_files s; c = current_index s
      in if 0 \<le> c \<and> c < int (length active) then Some (active ! nat c) else None)"

text \<open>
  The number of toggle events applied to catalog index \<open>i\<close> while the loop handles the
  keys \<open>inps\<close> from \<open>s\<close>: the space keys pressed with the cursor on \<open>i\<close>.
\<close>

fun toggle_count :: "int \<Rightarrow> session \<Rightarrow> filesystem \<Rightarrow> user_input list \<Rightarrow> nat" where
  "toggle_count i s fs [] = 0"
| "toggle_count i s fs (inp # rest) =
     (case step s fs inp of
        Continue s1 \<Rightarrow>
          (if key inp = '' '' \<and> cursor_target s = Some i then 1 else 0)
          + toggle_count i s1 fs rest
      | _ \<Rightarrow> 0)"

text \<open>A target page clamped to the valid range \<open>[0, totalPages - 1]\<close>.\<close>

definition clamp_page :: "session \<Rightarrow> int \<Rightarrow> int" where
  "clamp_page s target = max 0 (min (total_pages s - 1) target)"

subsection \<open>Example sessions\<close>

definition no_files :: filesystem where
  "no_files = Map.empty"

definition three_tracks :: "string list" where
  "three_tracks = [''A/b.mp3'', ''A/c&amp;d.mp3'', ''A/e.mp3'']"

text \<open>Three tracks, two per page, after one cursor-down: cursor 1 on page 0.\<close>

definition after_down :: session where
  "after_down = (init_session three_tracks 2)\<lparr>current_index := 1, screen_initialized := True\<rparr>"

text \<open>One more cursor-down later: cursor 2, the first item of page 1, the last page.\<close>

definition on_last_page :: session where
  "on_last_page = after_down\<lparr>current_index := 2, current_page := 1\<rparr>"

text \<open>The initial session after searching for \<^verbatim>\<open>E.MP\<close>: one match, catalog index 2.\<close>

definition searched_e :: session where
  "searched_e = (init_session three_tracks 2)\<lparr>search_mode := True, search_keyword := ''e.mp'', filtered_files := [2]\<rparr>"

text \<open>
  A run that toggles index 0, moves down and toggles 1, searches and toggles the match 2,
  leaves the search and toggles 0 again.
\<close>

definition demo_keys :: "user_input list" where
  "demo_keys = [press '' '', press DOWN, press '' '', type_after ''/'' ''E.MP'',
                press '' '', press [ESC], press '' '']"

definition demo_final :: session where
  "demo_final = (init_session three_tracks 2)\<lparr>selected_files := {1, 2}, screen_initialized := True\<rparr>"

subsection \<open>Search and export, in the words of the specification\<close>

text \<open>
  The display name of \<open>file_path\<close> contains the trimmed keyword as a case-insensitive
  substring: after lower-casing both, the name is some text, the keyword, some text.
\<close>

definition name_matches :: "string \<Rightarrow> string \<Rightarrow> bool" where
  "name_matches keyword file_path =
     (\<exists>before after. lower (path_name file_path) = before @ lower (strip keyword) @ after)"

text \<open>The paths of the selected tracks, in ascending order of catalog index.\<close>

definition selected_paths :: "session \<Rightarrow> string list" where
  "selected_paths s = map (\<lambda>i. music_files s ! nat i) (sorted_list_of_set (selected_files s))"

text \<open>One line of output per path: the path with its entities decoded, then a newline.\<close>

definition track_lines :: "string list \<Rightarrow> string" where
  "track_lines paths = concat (map (\<lambda>p. clean_path p @ [LF]) paths)"

text \<open>
  The partition of the selected paths by membership in the index loaded from the target
  playlist, and what append mode prints before it asks for confirmation.
\<close>

definition new_tracks :: "session \<Rightarrow> string list" where
  "new_tracks s = filter (\<lambda>p. as_posix p \<notin> existing_playlist s) (selected_paths s)"

definition duplicate_tracks :: "session \<Rightarrow> string list" where
  "duplicate_tracks s = filter (\<lambda>p. as_posix p \<in> existing_playlist s) (selected_paths s)"

definition append_report :: "session \<Rightarrow> message list" where
  "append_report s =
     PreparingToAdd (length (new_tracks s)) (target_playlist_file s) #
     (if duplicate_tracks s \<noteq> [] then [SkippingDuplicates (length (duplicate_tracks s))]
      else [])"

subsection \<open>Example playlists\<close>

definition x_m3u_text :: string where
  "x_m3u_text = ''#EXTM3U'' @ [LF] @ ''A/b.mp3'' @ [LF]"

definition messy_m3u_text :: string where
  "messy_m3u_text =
     ''#EXTM3U'' @ [LF] @ [LF] @ ''  A//b.mp3 '' @ [CR, LF] @ '' # note'' @ [CR] @ ''./A/e.mp3''"

definition playlist_dir :: filesystem where
  "playlist_dir = [''x.m3u'' \<mapsto> File x_m3u_text, ''messy.m3u'' \<mapsto> File messy_m3u_text]"



definition append_session :: session where
  "append_session =
     (init_session three_tracks 2)
       \<lparr>selected_files := {0, 1}, current_index := 1, existing_playlist := {''A/b.mp3''},
        append_mode := True, target_playlist_file := Some ''x.m3u''\<rparr>"


section \<open>The invariant of the loop\<close>

lemma pages_mult_le:
  fixes n p :: int
  assumes "0 < p"
  shows "((n + p - 1) div p) * p \<le> n + p - 1"
  using assms by (metis div_mult_mod_eq le_add_same_cancel1 pos_mod_sign)

lemma le_pages:
  fixes n p k :: int
  assumes "0 < p" "k * p \<le> n - 1"
  shows "k + 1 \<le> (n + p - 1) div p"
proof -
  have "(k + 1) * p \<le> n + p - 1" using assms by (simp add: algebra_simps)
  then have "((k + 1) * p) div p \<le> (n + p - 1) div p"
    using assms(1) by (intro zdiv_mono1) auto
  then show ?thesis using assms(1) by simp
qed

lemma page_nonneg:
  fixes c p k :: int
  assumes "0 < p" "0 \<le> c" "c < (k + 1) * p"
  shows "0 \<le> k"
proof (rule ccontr)
  assume "\<not> 0 \<le> k"
  then have "k + 1 \<le> 0" by simp
  then have "(k + 1) * p \<le> 0" using assms(1) by (simp add: mult_le_0_iff)
  then show False using assms by simp
qed

lemma page_mult_mono:
  fixes p k j :: int
  assumes "0 < p" "k \<le> j"
  shows "k * p \<le> j * p"
  using assms by (simp add: mult_right_mono)

lemma inv_pages:
  assumes "session_inv s"
  shows "0 \<le> current_page s" "current_page s + 1 \<le> total_pages s"
    "(total_pages s - 1) * page_size s \<le> active_len s - 1"
proof -
  from assms have p: "0 < page_size s" and c0: "0 \<le> current_index s"
    and cl: "current_index s < active_len s"
    and lo: "current_page s * page_size s \<le> current_index s"
    and hi: "current_index s < (current_page s + 1) * page_size s"
    by (simp_all add: session_inv_def)
  show "0 \<le> current_page s" using page_nonneg[OF p c0 hi] .
  have "current_page s * page_size s \<le> active_len s - 1" using lo cl by simp
  then show "current_page s + 1 \<le> total_pages s"
    unfolding total_pages_def using le_pages[OF p] by blast
  have "total_pages s * page_size s \<le> active_len s + page_size s - 1"
    unfolding total_pages_def using pages_mult_le[OF p] by blast
  then show "(total_pages s - 1) * page_size s \<le> active_len s - 1"
    by (simp add: algebra_simps)
qed


lemma active_len_upd:
  "active_len (s\<lparr>current_index := c\<rparr>) = active_len s"
  "active_len (s\<lparr>current_page := g\<rparr>) = active_len s"
  "active_len (s\<lparr>screen_initialized := b\<rparr>) = active_len s"
  "active_len (s\<lparr>selected_files := S\<rparr>) = active_len s"
  "active_len (s\<lparr>existing_playlist := E\<rparr>) = active_len s"
  "active_len (s\<lparr>append_mode := a\<rparr>) = active_len s"
  "active_len (s\<lparr>target_playlist_file := t\<rparr>) = active_len s"
  by (simp_all add: active_len_def)

lemma total_pages_upd:
  "total_pages (s\<lparr>current_index := c\<rparr>) = total_pages s"
  "total_pages (s\<lparr>current_page := g\<rparr>) = total_pages s"
  "total_pages (s\<lparr>screen_initialized := b\<rparr>) = total_pages s"
  "total_pages (s\<lparr>selected_files := S\<rparr>) = total_pages s"
  by (simp_all add: total_pages_def active_len_upd)

lemma inv_init: "files \<noteq> [] \<Longrightarrow> 0 < psize \<Longrightarrow> session_inv (init_session files psize)"
  by (cases files) (simp_all add: session_inv_def init_session_def active_len_def)

lemma inv_display:
  assumes "session_inv s"
  shows "display_page s = Inr (s\<lparr>screen_initialized := True\<rparr>)"
    and "session_inv (s\<lparr>screen_initialized := True\<rparr>)"
  using assms by (simp_all add: session_inv_def display_page_def active_len_upd)

lemma inv_up:
  assumes "session_inv s"
  shows "\<exists>s1. key_up s = Continue s1 \<and> session_inv s1"
proof -
  from assms have p: "0 < page_size s" and lo: "current_page s * page_size s \<le> current_index s"
    and hi: "current_index s < (current_page s + 1) * page_size s"
    by (simp_all add: session_inv_def)
  have pg: "0 \<le> current_page s" using inv_pages(1)[OF assms] .
  show ?thesis
  proof (cases "current_index s > 0")
    case False
    then show ?thesis using assms by (simp add: key_up_def)
  next
    case pos: True
    show ?thesis
    proof (cases "current_index s - 1 < current_page s * page_size s")
      case False
      then show ?thesis using assms pos
        by (simp add: key_up_def session_inv_def active_len_upd)
    next
      case True
      then have eq: "current_index s = current_page s * page_size s" using lo by simp
      have "current_page s \<noteq> 0" using eq pos by auto
      then have pg1: "1 \<le> current_page s" using pg by simp
      have m: "(current_page s - 1) * page_size s = current_page s * page_size s - page_size s"
        by (simp add: algebra_simps)
      show ?thesis using assms pos True pg1 eq p m
        by (simp add: key_up_def session_inv_def active_len_upd max_def)
    qed
  qed
qed

lemma inv_down:
  assumes "session_inv s"
  shows "\<exists>s1. key_down s = Continue s1 \<and> session_inv s1"
proof -
  from assms have p: "0 < page_size s" and lo: "current_page s * page_size s \<le> current_index s"
    and hi: "current_index s < (current_page s + 1) * page_size s"
    and c0: "0 \<le> current_index s"
    by (simp_all add: session_inv_def)
  show ?thesis
  proof (cases "current_index s < active_len s - 1")
    case False
    then show ?thesis using assms by (simp add: key_down_def)
  next
    case mv: True
    show ?thesis
    proof (cases "current_index s + 1 \<ge> (current_page s + 1) * page_size s")
      case False
      then show ?thesis using assms mv
        by (simp add: key_down_def session_inv_def active_len_upd)
    next
      case True
      then have eq: "current_index s + 1 = (current_page s + 1) * page_size s" using hi by simp
      let ?s1 = "s\<lparr>current_index := current_index s + 1\<rparr>"
      have tp: "total_pages ?s1 = total_pages s" by (simp add: total_pages_upd)
      have "(current_page s + 1) * page_size s \<le> active_len s - 1" using eq mv by simp
      then have "current_page s + 1 + 1 \<le> total_pages s"
        unfolding total_pages_def using le_pages[OF p] by blast
      then have mn: "min (total_pages s - 1) (current_page s + 1) = current_page s + 1" by simp
      have m: "(current_page s + 1 + 1) * page_size s = (current_page s + 1) * page_size s + page_size s"
        by (simp add: algebra_simps)
      have "key_down s = Continue (?s1\<lparr>current_page := current_page s + 1\<rparr>)"
        using mv True p by (simp add: key_down_def Let_def tp mn)
      moreover have "session_inv (?s1\<lparr>current_page := current_page s + 1\<rparr>)"
        using assms mv eq p m by (simp add: session_inv_def active_len_upd)
      ultimately show ?thesis by blast
    qed
  qed
qed


lemma inv_enter:
  assumes "session_inv s"
  shows "\<exists>s1. key_enter s = Continue s1 \<and> session_inv s1"
proof -
  from assms have p: "0 < page_size s" by (simp add: session_inv_def)
  have tp: "0 < total_pages s" using inv_pages(1,2)[OF assms] by simp
  let ?g = "(current_page s + 1) mod total_pages s"
  have g0: "0 \<le> ?g" and g1: "?g \<le> total_pages s - 1" using tp by simp_all
  have "?g * page_size s \<le> (total_pages s - 1) * page_size s"
    using page_mult_mono[OF p g1] .
  then have up: "?g * page_size s < active_len s" using inv_pages(3)[OF assms] by simp
  have nn: "0 \<le> ?g * page_size s" using g0 p by simp
  have m: "(?g + 1) * page_size s = ?g * page_size s + page_size s" by (simp add: algebra_simps)
  have "key_enter s =
      Continue (s\<lparr>current_page := ?g, current_index := ?g * page_size s\<rparr>)"
    using p tp by (simp add: key_enter_def Let_def)
  moreover have "session_inv (s\<lparr>current_page := ?g, current_index := ?g * page_size s\<rparr>)"
    using assms up nn p m by (simp add: session_inv_def active_len_upd)
  ultimately show ?thesis by blast
qed

lemma inv_prev_page:
  assumes "session_inv s"
  shows "\<exists>s1. key_prev_page s = Continue s1 \<and> session_inv s1"
proof (cases "current_page s > 0")
  case False
  then show ?thesis using assms by (simp add: key_prev_page_def)
next
  case True
  from assms have p: "0 < page_size s" and lo: "current_page s * page_size s \<le> current_index s"
    and cl: "current_index s < active_len s"
    by (simp_all add: session_inv_def)
  let ?g = "current_page s - 1"
  have m: "?g * page_size s = current_page s * page_size s - page_size s"
    "(?g + 1) * page_size s = current_page s * page_size s" by (simp_all add: algebra_simps)
  have nn: "0 \<le> ?g * page_size s" using True p by simp
  have "key_prev_page s = Continue (s\<lparr>current_page := ?g, current_index := ?g * page_size s\<rparr>)"
    using True by (simp add: key_prev_page_def Let_def)
  moreover have "session_inv (s\<lparr>current_page := ?g, current_index := ?g * page_size s\<rparr>)"
    using assms nn p lo cl m(1) by (simp add: session_inv_def active_len_upd m(2))
  ultimately show ?thesis by blast
qed

lemma inv_next_page:
  assumes "session_inv s"
  shows "\<exists>s1. key_next_page s = Continue s1 \<and> session_inv s1"
proof (cases "current_page s < total_pages s - 1")
  case False
  then show ?thesis using assms by (simp add: key_next_page_def session_inv_def)
next
  case True
  from assms have p: "0 < page_size s" by (simp add: session_inv_def)
  let ?g = "current_page s + 1"
  have g1: "?g \<le> total_pages s - 1" using True by simp
  have "?g * page_size s \<le> (total_pages s - 1) * page_size s"
    using page_mult_mono[OF p g1] .
  then have up: "?g * page_size s < active_len s" using inv_pages(3)[OF assms] by simp
  have nn: "0 \<le> ?g * page_size s" using inv_pages(1)[OF assms] p by simp
  have m: "(?g + 1) * page_size s = ?g * page_size s + page_size s" by (simp add: algebra_simps)
  have "key_next_page s = Continue (s\<lparr>current_page := ?g, current_index := ?g * page_size s\<rparr>)"
    using True p by (simp add: key_next_page_def Let_def)
  moreover have "session_inv (s\<lparr>current_page := ?g, current_index := ?g * page_size s\<rparr>)"
    using assms up nn p m by (simp add: session_inv_def active_len_upd)
  ultimately show ?thesis by blast
qed

lemma py_get_in_range:
  "0 \<le> i \<Longrightarrow> i < int (length xs) \<Longrightarrow> py_get xs i = Inr (xs ! nat i)"
  by (simp add: py_get_def)

lemma inv_toggle:
  assumes "session_inv s" "0 \<le> idx" "idx < int (length (music_files s))"
  shows "session_inv (toggle s idx)"
  using assms by (auto simp: session_inv_def toggle_def active_len_upd)

lemma inv_space:
  assumes "session_inv s"
  shows "\<exists>s1. key_space s = Continue s1 \<and> session_inv s1"
proof (cases "search_mode s")
  case False
  with assms have "0 \<le> current_index s" "current_index s < int (length (music_files s))"
    by (simp_all add: session_inv_def active_len_def)
  then show ?thesis using False inv_toggle[OF assms] by (simp add: key_space_def)
next
  case True
  with assms have c: "0 \<le> current_index s" "current_index s < int (length (filtered_files s))"
    and f: "\<forall>i \<in> set (filtered_files s). 0 \<le> i \<and> i < int (length (music_files s))"
    by (simp_all add: session_inv_def active_len_def)
  have "filtered_files s ! nat (current_index s) \<in> set (filtered_files s)"
    using c by simp
  then have "0 \<le> filtered_files s ! nat (current_index s)"
    "filtered_files s ! nat (current_index s) < int (length (music_files s))"
    using f by blast+
  then show ?thesis using True c inv_toggle[OF assms]
    by (simp add: key_space_def py_get_in_range)
qed

lemma search_loop_range:
  "j \<in> set (search_loop kw i files) \<Longrightarrow> i \<le> j \<and> j < i + int (length files)"
proof (induction files arbitrary: i)
  case Nil
  then show ?case by simp
next
  case (Cons f files)
  then show ?case by (fastforce split: if_splits)
qed

lemma inv_clear_search:
  assumes "session_inv s"
  shows "session_inv (clear_search s)"
  using assms by (cases "music_files s") (simp_all add: session_inv_def clear_search_def active_len_def)

lemma inv_search_input:
  assumes "session_inv s"
  shows "session_inv (search_input s l)"
proof -
  from assms have ne: "music_files s \<noteq> []" and p: "0 < page_size s"
    and sel: "selected_files s \<subseteq> {0..<int (length (music_files s))}"
    by (simp_all add: session_inv_def)
  have len: "0 < int (length (music_files s))" using ne by simp
  have fl: "session_inv (s\<lparr>screen_initialized := False\<rparr>)"
    using assms by (simp add: session_inv_def active_len_upd)
  show ?thesis
  proof (cases "strip l = []")
    case True
    then show ?thesis using fl by (simp add: search_input_def)
  next
    case kw: False
    let ?kw = "lower (strip (strip l))"
    let ?found = "search_loop ?kw 0 (music_files s)"
    show ?thesis
    proof (cases "strip (strip l) = []")
      case True
      then show ?thesis using kw ne p sel len
        by (simp add: search_input_def search_music_def clear_search_def Let_def
            session_inv_def active_len_def)
    next
      case False
      show ?thesis
      proof (cases "?found = []")
        case True
        then show ?thesis using kw False ne p sel len
          by (simp add: search_input_def search_music_def clear_search_def Let_def
              session_inv_def active_len_def)
      next
        case found: False
        have "\<forall>i \<in> set ?found. 0 \<le> i \<and> i < int (length (music_files s))"
          using search_loop_range[of _ ?kw 0 "music_files s"] by auto
        then show ?thesis using kw False found ne p sel
          by (simp add: search_input_def search_music_def Let_def
              session_inv_def active_len_def)
      qed
    qed
  qed
qed

lemma load_existing_playlist_view:
  "music_files (snd (load_existing_playlist s fs f)) = music_files s"
  "selected_files (snd (load_existing_playlist s fs f)) = selected_files s"
  "current_index (snd (load_existing_playlist s fs f)) = current_index s"
  "current_page (snd (load_existing_playlist s fs f)) = current_page s"
  "page_size (snd (load_existing_playlist s fs f)) = page_size s"
  "search_mode (snd (load_existing_playlist s fs f)) = search_mode s"
  "filtered_files (snd (load_existing_playlist s fs f)) = filtered_files s"
  by (simp_all add: load_existing_playlist_def Let_def split: option.splits node.splits)

lemma select_existing_playlist_view:
  "music_files (select_existing_playlist s fs ch) = music_files s"
  "selected_files (select_existing_playlist s fs ch) = selected_files s"
  "current_index (select_existing_playlist s fs ch) = current_index s"
  "current_page (select_existing_playlist s fs ch) = current_page s"
  "page_size (select_existing_playlist s fs ch) = page_size s"
  "search_mode (select_existing_playlist s fs ch) = search_mode s"
  "filtered_files (select_existing_playlist s fs ch) = filtered_files s"
  by (simp_all add: select_existing_playlist_def load_existing_playlist_view split: option.splits)

lemma active_len_select_existing_playlist:
  "active_len (select_existing_playlist s fs ch) = active_len s"
  by (simp add: active_len_def select_existing_playlist_view)

lemma inv_select_existing_playlist:
  assumes "session_inv s"
  shows "session_inv (select_existing_playlist s fs ch)"
  using assms
  by (simp add: session_inv_def active_len_select_existing_playlist
      select_existing_playlist_view)

lemma partition_selected_ok:
  assumes "\<forall>i \<in> set idxs. 0 \<le> i \<and> i < int (length (music_files s))"
  shows "\<exists>r. partition_selected s idxs = Inr r"
  using assms
proof (induction idxs)
  case Nil
  then show ?case by simp
next
  case (Cons i idxs)
  then obtain r where "partition_selected s idxs = Inr r" by auto
  then show ?case using Cons.prems
    by (cases r) (simp add: py_get_in_range)
qed

lemma finite_selection:
  assumes "S \<subseteq> {0..<n::int}"
  shows "finite S"
  using assms finite_subset by blast

lemma save_playlist_ok:
  assumes "session_inv s"
  shows "\<exists>saved fs1 out. save_playlist s fs l = Inr (saved, s, fs1, out)"
proof -
  from assms have sel: "selected_files s \<subseteq> {0..<int (length (music_files s))}"
    by (simp add: session_inv_def)
  have "\<forall>i \<in> set (sorted_list_of_set (selected_files s)).
          0 \<le> i \<and> i < int (length (music_files s))"
    using sel finite_selection[OF sel] by auto
  then obtain r where r: "partition_selected s (sorted_list_of_set (selected_files s)) = Inr r"
    using partition_selected_ok by blast
  show ?thesis
    unfolding save_playlist_def
    by (cases r) (auto simp: r Let_def split: option.splits node.splits prod.splits)
qed

lemma inv_handle_key:
  assumes "session_inv s"
  shows "(\<exists>s1. handle_key s fs inp = Continue s1 \<and> session_inv s1)
       \<or> (\<exists>saved fs1 out. handle_key s fs inp = Returned saved s fs1 out)"
proof -
  obtain saved fs1 out where sv: "save_playlist s fs (typed_line inp) = Inr (saved, s, fs1, out)"
    using save_playlist_ok[OF assms] by blast
  show ?thesis
    unfolding handle_key_def Let_def
    using assms sv inv_space[OF assms] inv_up[OF assms] inv_down[OF assms] inv_enter[OF assms]
      inv_prev_page[OF assms] inv_next_page[OF assms] inv_clear_search[OF assms]
      inv_search_input[OF assms] inv_select_existing_playlist[OF assms]
    by (auto simp: ESC_def CR_def LF_def)
qed

lemma inv_step:
  assumes "session_inv s"
  shows "(\<exists>s1. step s fs inp = Continue s1 \<and> session_inv s1)
       \<or> (\<exists>saved fs1 out.
            step s fs inp = Returned saved (s\<lparr>screen_initialized := True\<rparr>) fs1 out)"
  unfolding step_def
  using inv_display[OF assms] inv_handle_key[of "s\<lparr>screen_initialized := True\<rparr>" fs inp]
  by simp

lemma reachable_inv: "reachable s \<Longrightarrow> session_inv s"
proof (induction rule: reachable.induct)
  case (reachable_init files psize)
  then show ?case by (rule inv_init)
next
  case (reachable_step s fs inp s1)
  then show ?case using inv_step[of s fs inp] by auto
qed

section \<open>The input state machine\<close>


lemmas key_defs = UP_def DOWN_def LEFT_def RIGHT_def ESC_def CR_def LF_def
  press_def type_after_def pick_after_def

lemma handle_key_dispatch:
  "key inp = '' '' \<Longrightarrow> handle_key s fs inp = key_space s"
  "key inp = UP \<Longrightarrow> handle_key s fs inp = key_up s"
  "key inp = DOWN \<Longrightarrow> handle_key s fs inp = key_down s"
  "key inp = [CR] \<or> key inp = [LF] \<Longrightarrow> handle_key s fs inp = key_enter s"
  "key inp = ESC # ''[5~'' \<or> key inp = LEFT \<Longrightarrow> handle_key s fs inp = key_prev_page s"
  "key inp = ESC # ''[6~'' \<or> key inp = RIGHT \<Longrightarrow> handle_key s fs inp = key_next_page s"
  "key inp = ''/'' \<Longrightarrow> handle_key s fs inp = Continue (search_input s (typed_line inp))"
  "key inp = [ESC] \<Longrightarrow>
     handle_key s fs inp = Continue (if search_mode s then clear_search s else s)"
  by (auto simp: handle_key_def key_defs)

lemma getch_length: "length (fst (getch stdin)) \<le> 3"
  by (auto simp: getch_def Let_def)

lemma getch_arrow_keys:
  "getch (UP @ rest) = (UP, rest)"
  "getch (DOWN @ rest) = (DOWN, rest)"
  "getch (LEFT @ rest) = (LEFT, rest)"
  "getch (RIGHT @ rest) = (RIGHT, rest)"
  by (simp_all add: getch_def Let_def UP_def DOWN_def LEFT_def RIGHT_def)

text \<open>
  The four characters a terminal sends for Page Up and Page Down never arrive as one key:
  \<^verbatim>\<open>getch\<close> returns the first three, then the tilde, and the loop ignores both.
\<close>

lemma getch_never_page_key:
  "fst (getch stdin) \<noteq> ESC # ''[5~''" "fst (getch stdin) \<noteq> ESC # ''[6~''"
  using getch_length[of stdin] by auto

lemma getch_page_key_bytes:
  "getch (ESC # ''[5~'' @ rest) = (ESC # ''[5'', ''~'' @ rest)"
  "getch (ESC # ''[6~'' @ rest) = (ESC # ''[6'', ''~'' @ rest)"
  by (simp_all add: getch_def Let_def)

lemma page_key_bytes_ignored:
  assumes "key inp = ESC # ''[5'' \<or> key inp = ESC # ''[6'' \<or> key inp = ''~''"
  shows "handle_key s fs inp = Continue s"
  using assms by (auto simp: handle_key_def ESC_def CR_def LF_def)

lemma step_displayed:
  assumes "session_inv s"
  shows "step s fs inp = handle_key (s\<lparr>screen_initialized := True\<rparr>) fs inp"
  using inv_display(1)[OF assms] by (simp add: step_def)

lemma active_len_display: "active_len s = int (length (get_current_display_files s))"
  by (simp add: active_len_def get_current_display_files_def)

lemma div_window:
  fixes c p k :: int
  assumes "0 < p" "k * p \<le> c" "c < (k + 1) * p"
  shows "c div p = k"
proof -
  have "c = p * k + (c - k * p)" by (simp add: algebra_simps)
  moreover have "0 \<le> c - k * p" using assms(2) by simp
  moreover have "c - k * p < p" using assms(3) by (simp add: algebra_simps)
  ultimately show ?thesis by (rule int_div_pos_eq)
qed

lemma inv_page_of_cursor:
  assumes "session_inv s"
  shows "current_page s = current_index s div page_size s"
  using assms div_window[of "page_size s" "current_page s" "current_index s"]
  by (simp add: session_inv_def)

text \<open>
  Claim C2. From every reachable state, no key makes the loop raise, and after every
  transition that stays in the loop the cursor is at least 0, below the length of the
  active sequence (the filtered list in search mode, the full catalog range otherwise),
  and so at most \<open>max 0 (|active| - 1)\<close>. This covers the transitions that switch the mode
  and shrink the active sequence.
\<close>
theorem cursor_within_active_sequence:
  assumes "reachable s"
  shows "step s fs inp \<noteq> Raised e \<and>
         (\<forall>s1. step s fs inp = Continue s1 \<longrightarrow>
            0 \<le> current_index s1 \<and>
            current_index s1 < int (length (get_current_display_files s1)) \<and>
            current_index s1 \<le> max 0 (int (length (get_current_display_files s1)) - 1))"
proof -
  have inv: "session_inv s" using assms by (rule reachable_inv)
  have "step s fs inp \<noteq> Raised e" using inv_step[OF inv, of fs inp] by auto
  moreover have "0 \<le> current_index s1 \<and>
            current_index s1 < int (length (get_current_display_files s1)) \<and>
            current_index s1 \<le> max 0 (int (length (get_current_display_files s1)) - 1)"
    if "step s fs inp = Continue s1" for s1
  proof -
    have "session_inv s1" using inv_step[OF inv, of fs inp] that by auto
    then have "0 \<le> current_index s1"
      "current_index s1 < int (length (get_current_display_files s1))"
      by (simp_all add: session_inv_def active_len_display)
    then show ?thesis by simp
  qed
  ultimately show ?thesis by blast
qed

lemma up_down_frame:
  "key_up s = Continue s1 \<Longrightarrow> page_size s1 = page_size s \<and> active_len s1 = active_len s"
  "key_down s = Continue s1 \<Longrightarrow> page_size s1 = page_size s \<and> active_len s1 = active_len s"
  by (auto simp: key_up_def key_down_def Let_def active_len_upd split: if_splits)

text \<open>
  Claim C3. From every reachable state, cursor-up and cursor-down stay in the loop; if the
  new cursor is outside the window \<open>[page * page_size, (page + 1) * page_size)\<close> of the
  old page, the new page is the new cursor divided by the page size, clamped to
  \<open>[0, totalPages - 1]\<close>, and otherwise the page is unchanged.
\<close>
theorem auto_page_follow:
  assumes "reachable s" "key inp = UP \<or> key inp = DOWN"
  shows "\<exists>s1. step s fs inp = Continue s1 \<and>
           (if current_index s1 < current_page s * page_size s
               \<or> (current_page s + 1) * page_size s \<le> current_index s1
            then current_page s1 = clamp_page s (current_index s1 div page_size s)
            else current_page s1 = current_page s)"
proof -
  let ?d = "s\<lparr>screen_initialized := True\<rparr>"
  have inv: "session_inv s" using assms(1) by (rule reachable_inv)
  have invd: "session_inv ?d" using inv_display(2)[OF inv] .
  have st: "step s fs inp = key_up ?d \<or> step s fs inp = key_down ?d"
    using assms(2) step_displayed[OF inv] handle_key_dispatch(2,3) by metis
  then obtain s1 where s1: "step s fs inp = Continue s1" and inv1: "session_inv s1"
    and fr: "page_size s1 = page_size s" "active_len s1 = active_len s"
    using inv_up[OF invd] inv_down[OF invd] up_down_frame[of ?d]
    by (auto simp: active_len_upd)
  have p: "0 < page_size s" using inv by (simp add: session_inv_def)
  have pg: "current_page s1 = current_index s1 div page_size s"
    using inv_page_of_cursor[OF inv1] fr by simp
  have tp: "total_pages s1 = total_pages s" using fr by (simp add: total_pages_def)
  have "0 \<le> current_page s1" "current_page s1 \<le> total_pages s - 1"
    using inv_pages(1,2)[OF inv1] tp by simp_all
  then have cl: "clamp_page s (current_index s1 div page_size s) = current_page s1"
    using pg by (simp add: clamp_page_def)
  have "current_page s1 = current_page s"
    if "\<not> (current_index s1 < current_page s * page_size s
               \<or> (current_page s + 1) * page_size s \<le> current_index s1)"
    using that pg div_window[OF p, of "current_page s" "current_index s1"] by simp
  then show ?thesis using s1 cl by auto
qed


text \<open>
  Claim C6, amended. From every reachable state, the left arrow sets the page to
  \<open>page - 1\<close> clamped to \<open>[0, totalPages - 1]\<close> and the right arrow to \<open>page + 1\<close>
  clamped likewise; when the page changes the cursor becomes \<open>page * page_size\<close>, and
  when clamping leaves the page unchanged the cursor is left where it was.
\<close>
theorem page_navigation:
  assumes "reachable s"
  shows "(key inp = LEFT \<longrightarrow>
            (\<exists>s1. step s fs inp = Continue s1 \<and>
               current_page s1 = clamp_page s (current_page s - 1) \<and>
               (if current_page s1 \<noteq> current_page s
                then current_index s1 = current_page s1 * page_size s1
                else current_index s1 = current_index s))) \<and>
         (key inp = RIGHT \<longrightarrow>
            (\<exists>s1. step s fs inp = Continue s1 \<and>
               current_page s1 = clamp_page s (current_page s + 1) \<and>
               (if current_page s1 \<noteq> current_page s
                then current_index s1 = current_page s1 * page_size s1
                else current_index s1 = current_index s)))"
proof -
  let ?d = "s\<lparr>screen_initialized := True\<rparr>"
  have inv: "session_inv s" using assms(1) by (rule reachable_inv)
  have p: "0 < page_size s" using inv by (simp add: session_inv_def)
  have pg: "0 \<le> current_page s" "current_page s \<le> total_pages s - 1"
    using inv_pages(1,2)[OF inv] by simp_all
  have prev: "key_prev_page ?d =
      (if current_page s > 0
       then Continue (?d\<lparr>current_page := current_page s - 1,
                        current_index := (current_page s - 1) * page_size s\<rparr>)
       else Continue ?d)"
    by (simp add: key_prev_page_def Let_def)
  have nxt: "key_next_page ?d =
      (if current_page s < total_pages s - 1
       then Continue (?d\<lparr>current_page := current_page s + 1,
                        current_index := (current_page s + 1) * page_size s\<rparr>)
       else Continue ?d)"
    using p by (simp add: key_next_page_def Let_def total_pages_upd)
  have a: ?thesis if "key inp = LEFT"
  proof -
    have st: "step s fs inp = key_prev_page ?d"
      using that step_displayed[OF inv] handle_key_dispatch(5) by metis
    have ne: "key inp \<noteq> RIGHT" using that by (auto simp: key_defs)
    show ?thesis using pg that ne by (simp add: st prev clamp_page_def)
  qed
  have b: ?thesis if "key inp = RIGHT"
  proof -
    have st: "step s fs inp = key_next_page ?d"
      using that step_displayed[OF inv] handle_key_dispatch(6) by metis
    have ne: "key inp \<noteq> LEFT" using that by (auto simp: key_defs)
    show ?thesis using pg that ne by (simp add: st nxt clamp_page_def)
  qed
  show ?thesis using a b by blast
qed

text \<open>
  Claim C7. From every reachable state the active sequence is non-empty and has at least
  one page; Enter sets the page to \<open>(page + 1) mod totalPages\<close>, so from the last page
  to page 0, and the cursor to \<open>page * page_size\<close>. Cursor movement does not wrap: up at
  position 0 and down at the last position leave the cursor in place.
\<close>
theorem enter_advances_with_wrap:
  assumes "reachable s"
  shows "(key inp = [CR] \<or> key inp = [LF] \<longrightarrow>
            0 < active_len s \<and> 0 < total_pages s \<and>
            (\<exists>s1. step s fs inp = Continue s1 \<and>
               current_page s1 = (current_page s + 1) mod total_pages s \<and>
               current_index s1 = current_page s1 * page_size s \<and>
               (current_page s = total_pages s - 1 \<longrightarrow> current_page s1 = 0))) \<and>
         (key inp = UP \<and> current_index s = 0 \<longrightarrow>
            (\<exists>s1. step s fs inp = Continue s1 \<and> current_index s1 = 0)) \<and>
         (key inp = DOWN \<and> current_index s = active_len s - 1 \<longrightarrow>
            (\<exists>s1. step s fs inp = Continue s1 \<and> current_index s1 = active_len s - 1))"
proof -
  let ?d = "s\<lparr>screen_initialized := True\<rparr>"
  have inv: "session_inv s" using assms(1) by (rule reachable_inv)
  have p: "0 < page_size s" and al: "0 < active_len s"
    using inv by (simp_all add: session_inv_def)
  have tp: "0 < total_pages s" using inv_pages(1,2)[OF inv] by simp
  have ent: "key_enter ?d =
      Continue (?d\<lparr>current_page := (current_page s + 1) mod total_pages s,
                   current_index := ((current_page s + 1) mod total_pages s) * page_size s\<rparr>)"
    using p tp by (simp add: key_enter_def Let_def total_pages_upd)
  have a: "step s fs inp = key_enter ?d" if "key inp = [CR] \<or> key inp = [LF]"
    using that step_displayed[OF inv] handle_key_dispatch(4) by metis
  have b: "step s fs inp = Continue ?d" if "key inp = UP" "current_index s = 0"
    using that step_displayed[OF inv] handle_key_dispatch(2)[of inp ?d fs]
    by (simp add: key_up_def)
  have c: "step s fs inp = Continue ?d" if "key inp = DOWN" "current_index s = active_len s - 1"
    using that step_displayed[OF inv] handle_key_dispatch(3)[of inp ?d fs]
    by (simp add: key_down_def active_len_upd)
  show ?thesis using a b c ent al tp by auto
qed


lemmas text_defs = strip_def isspace_def lower_def lower_char_def startswith_def
  path_name_def path_tail_def path_root_def as_posix_def

lemma reachable_after_down: "reachable after_down"
proof -
  have "reachable (init_session three_tracks 2)"
    by (rule reachable_init) (simp_all add: three_tracks_def)
  moreover have "step (init_session three_tracks 2) no_files (press DOWN) = Continue after_down"
    by (simp add: step_def display_page_def handle_key_def key_down_def active_len_def
        init_session_def three_tracks_def after_down_def key_defs)
  ultimately show ?thesis by (rule reachable_step)
qed

theorem cursor_within_active_sequence_witness:
  "reachable (init_session three_tracks 2) \<and>
   step (init_session three_tracks 2) no_files (type_after ''/'' ''E.MP'') = Continue searched_e \<and>
   get_current_display_files (init_session three_tracks 2) = [0, 1, 2] \<and>
   get_current_display_files searched_e = [2] \<and>
   0 \<le> current_index searched_e \<and>
   current_index searched_e \<le> max 0 (int (length (get_current_display_files searched_e)) - 1)"
proof -
  have r: "reachable (init_session three_tracks 2)"
    by (rule reachable_init) (simp_all add: three_tracks_def)
  have st: "step (init_session three_tracks 2) no_files (type_after ''/'' ''E.MP'') = Continue searched_e"
    by (simp add: step_def display_page_def handle_key_def search_input_def search_music_def
        active_len_def init_session_def three_tracks_def searched_e_def key_defs text_defs)
  have g: "get_current_display_files (init_session three_tracks 2) = [0, 1, 2]"
    "get_current_display_files searched_e = [2]"
    by (simp_all add: get_current_display_files_def init_session_def three_tracks_def
        searched_e_def upt_rec)
  from cursor_within_active_sequence[OF r, of no_files "type_after ''/'' ''E.MP''"] st
  have "0 \<le> current_index searched_e \<and>
        current_index searched_e \<le> max 0 (int (length (get_current_display_files searched_e)) - 1)"
    by simp
  then show ?thesis using r st g by simp
qed

theorem auto_page_follow_witness:
  "reachable after_down \<and> key (press DOWN) = DOWN \<and>
   step after_down no_files (press DOWN)
     = Continue (after_down\<lparr>current_index := 2, current_page := 1\<rparr>) \<and>
   (current_page after_down + 1) * page_size after_down \<le> 2 \<and>
   clamp_page after_down (2 div page_size after_down) = 1"
proof -
  let ?s1 = "after_down\<lparr>current_index := 2, current_page := 1\<rparr>"
  have k: "key (press DOWN) = DOWN" by (simp add: press_def)
  have st: "step after_down no_files (press DOWN) = Continue ?s1"
    by (simp add: step_def display_page_def handle_key_def key_down_def active_len_def
        total_pages_def init_session_def three_tracks_def after_down_def key_defs)
  have out: "(current_page after_down + 1) * page_size after_down \<le> 2"
    by (simp add: after_down_def init_session_def)
  from auto_page_follow[OF reachable_after_down, of "press DOWN" no_files] k st
  have "if current_index ?s1 < current_page after_down * page_size after_down
           \<or> (current_page after_down + 1) * page_size after_down \<le> current_index ?s1
        then current_page ?s1 = clamp_page after_down (current_index ?s1 div page_size after_down)
        else current_page ?s1 = current_page after_down"
    by auto
  then have "clamp_page after_down (2 div page_size after_down) = 1" using out by simp
  then show ?thesis using reachable_after_down k st out by simp
qed

theorem page_navigation_counterexample:
  "reachable after_down \<and> key (press LEFT) = LEFT \<and>
   step after_down no_files (press LEFT) = Continue after_down \<and>
   current_index after_down = 1 \<and>
   current_page after_down * page_size after_down = 0"
  using reachable_after_down
  by (simp add: step_def display_page_def handle_key_def key_prev_page_def active_len_def
      init_session_def three_tracks_def after_down_def key_defs)


lemma selected_frame:
  "key_up s = Continue s1 \<Longrightarrow> selected_files s1 = selected_files s"
  "key_down s = Continue s1 \<Longrightarrow> selected_files s1 = selected_files s"
  "key_enter s = Continue s1 \<Longrightarrow> selected_files s1 = selected_files s"
  "key_prev_page s = Continue s1 \<Longrightarrow> selected_files s1 = selected_files s"
  "key_next_page s = Continue s1 \<Longrightarrow> selected_files s1 = selected_files s"
  by (auto simp: key_up_def key_down_def key_enter_def key_prev_page_def key_next_page_def
      Let_def split: if_splits)

lemma selected_search:
  "selected_files (clear_search s) = selected_files s"
  "selected_files (search_music s kw) = selected_files s"
  "selected_files (search_input s l) = selected_files s"
  by (simp_all add: clear_search_def search_music_def search_input_def Let_def)

lemma handle_key_other_keys:
  assumes "key inp \<noteq> '' ''" "handle_key s fs inp = Continue s1"
  shows "selected_files s1 = selected_files s"
proof -
  consider "key inp = UP" | "key inp = DOWN" | "key inp = [CR] \<or> key inp = [LF]"
    | "key inp = ESC # ''[5~'' \<or> key inp = LEFT" | "key inp = ESC # ''[6~'' \<or> key inp = RIGHT"
    | "key inp = ''/''" | "key inp = [ESC]"
    | "key inp \<notin> {UP, DOWN, [CR], [LF], ESC # ''[5~'', LEFT, ESC # ''[6~'', RIGHT, ''/'', [ESC]}"
    by auto
  then show ?thesis
  proof cases
    case 1
    then have "key_up s = Continue s1" using assms(2) handle_key_dispatch(2) by simp
    then show ?thesis by (rule selected_frame(1))
  next
    case 2
    then have "key_down s = Continue s1" using assms(2) handle_key_dispatch(3) by simp
    then show ?thesis by (rule selected_frame(2))
  next
    case 3
    then have "key_enter s = Continue s1" using assms(2) handle_key_dispatch(4) by simp
    then show ?thesis by (rule selected_frame(3))
  next
    case 4
    then have "key_prev_page s = Continue s1" using assms(2) handle_key_dispatch(5) by simp
    then show ?thesis by (rule selected_frame(4))
  next
    case 5
    then have "key_next_page s = Continue s1" using assms(2) handle_key_dispatch(6) by simp
    then show ?thesis by (rule selected_frame(5))
  next
    case 6
    then have "s1 = search_input s (typed_line inp)"
      using assms(2) handle_key_dispatch(7) by simp
    then show ?thesis by (simp add: selected_search)
  next
    case 7
    then have "s1 = (if search_mode s then clear_search s else s)"
      using assms(2) handle_key_dispatch(8) by simp
    then show ?thesis by (simp add: selected_search)
  next
    case 8
    then show ?thesis using assms
      by (auto simp: handle_key_def Let_def key_defs select_existing_playlist_view
          split: if_splits sum.splits prod.splits)
  qed
qed

lemma cursor_target_inv:
  assumes "session_inv s"
  shows "cursor_target s =
           Some (if search_mode s then filtered_files s ! nat (current_index s)
                 else current_index s)"
proof -
  from assms have c: "0 \<le> current_index s" "current_index s < active_len s"
    by (simp_all add: session_inv_def)
  show ?thesis
  proof (cases "search_mode s")
    case True
    then show ?thesis using c
      by (simp add: cursor_target_def get_current_display_files_def active_len_def)
  next
    case False
    then have "nat (current_index s) < length (music_files s)"
      using c by (simp add: active_len_def)
    then have "map int [0..<length (music_files s)] ! nat (current_index s) = current_index s"
      using c(1) by simp
    then show ?thesis using False c
      by (simp add: cursor_target_def get_current_display_files_def active_len_def)
  qed
qed

lemma key_space_inv:
  assumes "session_inv s"
  shows "key_space s =
           Continue (toggle s (if search_mode s then filtered_files s ! nat (current_index s)
                               else current_index s))"
  using assms
  by (cases "search_mode s")
    (simp_all add: key_space_def session_inv_def active_len_def py_get_in_range)

lemma toggle_member: "(i \<in> selected_files (toggle s t)) = ((i \<in> selected_files s) \<noteq> (t = i))"
  by (auto simp: toggle_def)

lemma step_selection:
  assumes "session_inv s" "step s fs inp = Continue s1"
  shows "(i \<in> selected_files s1)
         = ((i \<in> selected_files s) \<noteq> (key inp = '' '' \<and> cursor_target s = Some i))"
proof -
  let ?d = "s\<lparr>screen_initialized := True\<rparr>"
  have hk: "handle_key ?d fs inp = Continue s1" using assms step_displayed by simp
  have invd: "session_inv ?d" using inv_display(2)[OF assms(1)] .
  show ?thesis
  proof (cases "key inp = '' ''")
    case False
    then show ?thesis using handle_key_other_keys[OF False hk] by simp
  next
    case True
    have ct: "cursor_target ?d = cursor_target s"
      by (simp add: cursor_target_def get_current_display_files_def)
    have "key_space ?d = Continue s1" using hk True handle_key_dispatch(1) by simp
    then obtain t where "cursor_target s = Some t" "s1 = toggle ?d t"
      using key_space_inv[OF invd] cursor_target_inv[OF invd] ct by simp
    then show ?thesis using True by (auto simp: toggle_member)
  qed
qed

lemma selection_parity_run:
  assumes "session_inv s"
  shows "\<exists>s1. outcome_session (handle_input s fs inps) = Some s1 \<and>
           (\<forall>i. (i \<in> selected_files s1)
                = ((i \<in> selected_files s) \<noteq> odd (toggle_count i s fs inps)))"
  using assms
proof (induction inps arbitrary: s)
  case Nil
  then show ?case by (simp add: outcome_session_def)
next
  case (Cons inp rest)
  from inv_step[OF Cons.prems, of fs inp] show ?case
  proof
    assume "\<exists>s1. step s fs inp = Continue s1 \<and> session_inv s1"
    then obtain s1 where st: "step s fs inp = Continue s1" and inv1: "session_inv s1" by blast
    from Cons.IH[OF inv1] obtain s2 where
      s2: "outcome_session (handle_input s1 fs rest) = Some s2"
      and par: "\<forall>i. (i \<in> selected_files s2)
                = ((i \<in> selected_files s1) \<noteq> odd (toggle_count i s1 fs rest))"
      by blast
    have "(i \<in> selected_files s2)
            = ((i \<in> selected_files s) \<noteq> odd (toggle_count i s fs (inp # rest)))" for i
      using par step_selection[OF Cons.prems st, of i] st by auto
    then show ?thesis using s2 st by simp
  next
    assume "\<exists>saved fs1 out.
              step s fs inp = Returned saved (s\<lparr>screen_initialized := True\<rparr>) fs1 out"
    then show ?thesis by (auto simp: outcome_session_def)
  qed
qed

text \<open>
  Claim C1. From the initial session, after any sequence of keys the loop has not raised,
  and a catalog index is in the selection set exactly when the number of toggle events
  applied to it is odd. From every reachable state, a key other than space leaves the
  selection set as it is, and entering a search and leaving it with escape leaves it as it
  is, back in normal mode.
\<close>
theorem selection_is_toggle_parity:
  assumes "files \<noteq> []" and "0 < psize"
  shows "(\<exists>s1. outcome_session (handle_input (init_session files psize) fs inps) = Some s1 \<and>
            (\<forall>i. (i \<in> selected_files s1)
                 = odd (toggle_count i (init_session files psize) fs inps))) \<and>
         (\<forall>s. reachable s \<longrightarrow>
            (\<forall>inp s1. key inp \<noteq> '' '' \<longrightarrow> step s fs inp = Continue s1 \<longrightarrow>
               selected_files s1 = selected_files s) \<and>
            (\<forall>kw. \<exists>s1 s2.
               step s fs (type_after ''/'' kw) = Continue s1 \<and>
               step s1 fs (press [ESC]) = Continue s2 \<and>
               selected_files s1 = selected_files s \<and>
               selected_files s2 = selected_files s \<and> \<not> search_mode s2))"
proof -
  have inv0: "session_inv (init_session files psize)" using assms by (rule inv_init)
  have a: "\<exists>s1. outcome_session (handle_input (init_session files psize) fs inps) = Some s1 \<and>
            (\<forall>i. (i \<in> selected_files s1)
                 = odd (toggle_count i (init_session files psize) fs inps))"
    using selection_parity_run[OF inv0, of fs inps] by (simp add: init_session_def)
  have b: "selected_files s1 = selected_files s"
    if "reachable s" "key inp \<noteq> '' ''" "step s fs inp = Continue s1" for s inp s1
    using step_selection[OF reachable_inv[OF that(1)] that(3)] that(2) by auto
  have c: "\<exists>s1 s2.
               step s fs (type_after ''/'' kw) = Continue s1 \<and>
               step s1 fs (press [ESC]) = Continue s2 \<and>
               selected_files s1 = selected_files s \<and>
               selected_files s2 = selected_files s \<and> \<not> search_mode s2"
    if r: "reachable s" for s kw
  proof -
    let ?d = "s\<lparr>screen_initialized := True\<rparr>"
    let ?s1 = "search_input ?d kw"
    let ?d1 = "?s1\<lparr>screen_initialized := True\<rparr>"
    let ?s2 = "if search_mode ?d1 then clear_search ?d1 else ?d1"
    have inv: "session_inv s" using r by (rule reachable_inv)
    have st1: "step s fs (type_after ''/'' kw) = Continue ?s1"
      using step_displayed[OF inv] handle_key_dispatch(7)[of "type_after ''/'' kw" ?d fs]
      by (simp add: type_after_def)
    have inv1: "session_inv ?s1" using inv_search_input[OF inv_display(2)[OF inv]] .
    have st2: "step ?s1 fs (press [ESC]) = Continue ?s2"
      using step_displayed[OF inv1] handle_key_dispatch(8)[of "press [ESC]" ?d1 fs]
      by (simp add: press_def)
    have "selected_files ?s1 = selected_files s" by (simp add: selected_search)
    moreover have "selected_files ?s2 = selected_files s" by (simp add: selected_search)
    moreover have "\<not> search_mode ?s2" by (simp add: clear_search_def)
    ultimately show ?thesis using st1 st2 by blast
  qed
  show ?thesis using a b c by blast
qed


lemmas run_defs = step_def display_page_def handle_key_def key_space_def key_up_def key_down_def
  key_enter_def key_prev_page_def key_next_page_def toggle_def search_input_def search_music_def
  clear_search_def active_len_def total_pages_def py_get_def init_session_def three_tracks_def
  cursor_target_def get_current_display_files_def outcome_session_def

lemma reachable_on_last_page: "reachable on_last_page"
proof -
  have "step after_down no_files (press DOWN) = Continue on_last_page"
    by (simp add: run_defs after_down_def on_last_page_def key_defs)
  with reachable_after_down show ?thesis by (rule reachable_step)
qed

theorem selection_is_toggle_parity_witness:
  "three_tracks \<noteq> [] \<and> (0::int) < 2 \<and>
   outcome_session (handle_input (init_session three_tracks 2) no_files demo_keys)
     = Some demo_final \<and>
   selected_files demo_final = {1, 2} \<and>
   toggle_count 0 (init_session three_tracks 2) no_files demo_keys = 2 \<and>
   toggle_count 1 (init_session three_tracks 2) no_files demo_keys = 1 \<and>
   toggle_count 2 (init_session three_tracks 2) no_files demo_keys = 1 \<and>
   (0 \<in> selected_files demo_final)
     = odd (toggle_count 0 (init_session three_tracks 2) no_files demo_keys) \<and>
   (1 \<in> selected_files demo_final)
     = odd (toggle_count 1 (init_session three_tracks 2) no_files demo_keys)"
proof -
  have ne: "three_tracks \<noteq> []" by (simp add: three_tracks_def)
  have run: "outcome_session (handle_input (init_session three_tracks 2) no_files demo_keys)
     = Some demo_final"
    by (simp add: demo_keys_def demo_final_def run_defs key_defs text_defs insert_Diff_if
        insert_commute)
  have cnt: "toggle_count 0 (init_session three_tracks 2) no_files demo_keys = 2"
    "toggle_count 1 (init_session three_tracks 2) no_files demo_keys = 1"
    "toggle_count 2 (init_session three_tracks 2) no_files demo_keys = 1"
    by (simp_all add: demo_keys_def run_defs key_defs text_defs upt_rec)
  have sel: "selected_files demo_final = {1, 2}" by (simp add: demo_final_def)
  from selection_is_toggle_parity[OF ne, of 2 no_files demo_keys] run
  have "\<forall>i. (i \<in> selected_files demo_final)
     = odd (toggle_count i (init_session three_tracks 2) no_files demo_keys)"
    by simp
  then show ?thesis using ne run cnt sel by simp
qed

theorem page_navigation_witness:
  "reachable after_down \<and> key (press RIGHT) = RIGHT \<and>
   step after_down no_files (press RIGHT) = Continue on_last_page \<and>
   clamp_page after_down (current_page after_down + 1) = 1 \<and>
   current_page on_last_page = 1 \<and>
   current_index on_last_page = current_page on_last_page * page_size on_last_page"
proof -
  have k: "key (press RIGHT) = RIGHT" by (simp add: press_def)
  have st: "step after_down no_files (press RIGHT) = Continue on_last_page"
    by (simp add: run_defs after_down_def on_last_page_def key_defs)
  have ne: "current_page on_last_page \<noteq> current_page after_down"
    by (simp add: on_last_page_def after_down_def init_session_def)
  from page_navigation[OF reachable_after_down, of "press RIGHT" no_files] k st
  have "current_page on_last_page = clamp_page after_down (current_page after_down + 1) \<and>
        (if current_page on_last_page \<noteq> current_page after_down
         then current_index on_last_page = current_page on_last_page * page_size on_last_page
         else current_index on_last_page = current_index after_down)"
    by auto
  moreover have "current_page on_last_page = 1"
    by (simp add: on_last_page_def)
  ultimately show ?thesis using reachable_after_down k st ne by simp
qed

theorem enter_advances_with_wrap_witness:
  "reachable on_last_page \<and> key (press [CR]) = [CR] \<and>
   total_pages on_last_page = 2 \<and> current_page on_last_page = total_pages on_last_page - 1 \<and>
   step on_last_page no_files (press [CR])
     = Continue (on_last_page\<lparr>current_page := 0, current_index := 0\<rparr>) \<and>
   (current_page on_last_page + 1) mod total_pages on_last_page = 0"
proof -
  let ?s1 = "on_last_page\<lparr>current_page := 0, current_index := 0\<rparr>"
  have k: "key (press [CR]) = [CR]" by (simp add: press_def)
  have tp: "total_pages on_last_page = 2" "current_page on_last_page = total_pages on_last_page - 1"
    by (simp_all add: run_defs after_down_def on_last_page_def)
  have st: "step on_last_page no_files (press [CR]) = Continue ?s1"
    by (simp add: run_defs after_down_def on_last_page_def key_defs)
  from enter_advances_with_wrap[OF reachable_on_last_page, of "press [CR]" no_files] k st
  have "current_page ?s1 = (current_page on_last_page + 1) mod total_pages on_last_page"
    by auto
  then have "(current_page on_last_page + 1) mod total_pages on_last_page = 0" by simp
  then show ?thesis using reachable_on_last_page k tp st by simp
qed

section \<open>Search, membership index and export\<close>

lemma startswith_iff: "startswith s p = (\<exists>rest. s = p @ rest)"
proof
  assume "startswith s p"
  then have "s = p @ drop (length p) s"
    by (metis append_take_drop_id startswith_def)
  then show "\<exists>rest. s = p @ rest" ..
next
  assume "\<exists>rest. s = p @ rest"
  then show "startswith s p" by (auto simp: startswith_def)
qed

lemma py_in_iff: "py_in sub s = (\<exists>before after. s = before @ sub @ after)"
proof (induction s)
  case Nil
  then show ?case by simp
next
  case (Cons c cs)
  show ?case
  proof
    assume "py_in sub (c # cs)"
    then consider "startswith (c # cs) sub" | "py_in sub cs" by auto
    then show "\<exists>before after. c # cs = before @ sub @ after"
    proof cases
      case 1
      then obtain rest where "c # cs = [] @ sub @ rest" by (auto simp: startswith_iff)
      then show ?thesis by blast
    next
      case 2
      then obtain before after where "cs = before @ sub @ after" using Cons.IH by blast
      then have "c # cs = (c # before) @ sub @ after" by simp
      then show ?thesis by blast
    qed
  next
    assume "\<exists>before after. c # cs = before @ sub @ after"
    then obtain before after where e: "c # cs = before @ sub @ after" by blast
    show "py_in sub (c # cs)"
    proof (cases before)
      case Nil
      then have "startswith (c # cs) sub" using e by (auto simp: startswith_iff)
      then show ?thesis by simp
    next
      case (Cons b bs)
      then have "cs = bs @ sub @ after" using e by simp
      then show ?thesis using Cons.IH by auto
    qed
  qed
qed

lemma search_loop_filter:
  "search_loop kw i files =
     map (\<lambda>k. i + int k)
       (filter (\<lambda>k. py_in kw (lower (path_name (files ! k)))) [0..<length files])"
proof (induction files arbitrary: i)
  case Nil
  then show ?case by simp
next
  case (Cons f files)
  have upt: "[0..<length (f # files)] = 0 # map Suc [0..<length files]"
    by (simp add: upt_conv_Cons map_Suc_upt del: upt_Suc)
  have tl: "map (\<lambda>k. i + int k)
              (filter (\<lambda>k. py_in kw (lower (path_name ((f # files) ! k))))
                 (map Suc [0..<length files]))
            = search_loop kw (i + 1) files"
    by (simp add: Cons.IH filter_map comp_def)
  show ?case
    unfolding upt using tl by simp
qed

lemma strip_empty_iff: "(strip s = []) = (\<forall>c \<in> set s. isspace c)"
proof
  assume "strip s = []"
  then have a: "\<forall>c \<in> set (dropWhile isspace s). isspace c"
    by (simp add: strip_def dropWhile_eq_Nil_conv)
  have "dropWhile isspace s = []"
  proof (rule ccontr)
    assume n: "dropWhile isspace s \<noteq> []"
    then have "\<not> isspace (hd (dropWhile isspace s))" by (rule hd_dropWhile)
    moreover have "hd (dropWhile isspace s) \<in> set (dropWhile isspace s)" using n by simp
    ultimately show False using a by blast
  qed
  then show "\<forall>c \<in> set s. isspace c" by (simp add: dropWhile_eq_Nil_conv)
next
  assume "\<forall>c \<in> set s. isspace c"
  then have d: "dropWhile isspace s = []" by (simp add: dropWhile_eq_Nil_conv)
  show "strip s = []" unfolding strip_def d by simp
qed

lemma sorted_int_filter_upt: "sorted (map int (filter P [0..<n]))"
  by (rule sorted_filter) (simp add: sorted_map)

lemma distinct_int_filter_upt: "distinct (map int (filter P [0..<n]))"
  by (simp add: distinct_map inj_on_def)

text \<open>
  Claim C8. A keyword with a non-whitespace character makes \<^verbatim>\<open>search_music\<close> mark the
  filter active and store exactly the catalog indices, in ascending order and without
  repetition, of the tracks whose display name (the last component of the path) contains
  the trimmed keyword as a case-insensitive substring; that list is then the active
  sequence. An empty or all-whitespace keyword marks the filter inactive, and the active
  sequence is the full catalog range.
\<close>
theorem search_filter_result:
  "((\<exists>c \<in> set keyword. \<not> isspace c) \<longrightarrow>
      search_mode (search_music s keyword) \<and>
      filtered_files (search_music s keyword)
        = map int (filter (\<lambda>k. name_matches keyword (music_files s ! k))
                     [0..<length (music_files s)]) \<and>
      get_current_display_files (search_music s keyword)
        = filtered_files (search_music s keyword) \<and>
      sorted (filtered_files (search_music s keyword)) \<and>
      distinct (filtered_files (search_music s keyword))) \<and>
   ((\<forall>c \<in> set keyword. isspace c) \<longrightarrow>
      \<not> search_mode (search_music s keyword) \<and>
      get_current_display_files (search_music s keyword)
        = map int [0..<length (music_files s)])"
proof -
  have a: "search_mode (search_music s keyword) \<and>
      filtered_files (search_music s keyword)
        = map int (filter (\<lambda>k. name_matches keyword (music_files s ! k))
                     [0..<length (music_files s)]) \<and>
      get_current_display_files (search_music s keyword)
        = filtered_files (search_music s keyword) \<and>
      sorted (filtered_files (search_music s keyword)) \<and>
      distinct (filtered_files (search_music s keyword))"
    if "\<exists>c \<in> set keyword. \<not> isspace c"
  proof -
    have ne: "strip keyword \<noteq> []" using that strip_empty_iff by blast
    have m: "py_in (lower (strip keyword)) (lower (path_name p)) = name_matches keyword p" for p
      by (simp add: py_in_iff name_matches_def)
    have f: "filtered_files (search_music s keyword)
        = map int (filter (\<lambda>k. name_matches keyword (music_files s ! k))
                     [0..<length (music_files s)])"
      using ne by (simp add: search_music_def search_loop_filter m)
    have "search_mode (search_music s keyword)" using ne by (simp add: search_music_def)
    then show ?thesis
      using f sorted_int_filter_upt distinct_int_filter_upt
      by (simp add: get_current_display_files_def)
  qed
  have b: "\<not> search_mode (search_music s keyword) \<and>
      get_current_display_files (search_music s keyword)
        = map int [0..<length (music_files s)]"
    if "\<forall>c \<in> set keyword. isspace c"
  proof -
    have "strip keyword = []" using that strip_empty_iff by blast
    then show ?thesis by (simp add: search_music_def get_current_display_files_def)
  qed
  show ?thesis using a b by blast
qed

lemma foldl_load_line:
  "foldl load_line A ls
     = A \<union> as_posix ` {l \<in> strip ` set ls. l \<noteq> [] \<and> \<not> startswith l ''#''}"
proof (induction ls arbitrary: A)
  case Nil
  then show ?case by simp
next
  case (Cons l ls)
  show ?case
    by (simp only: foldl_Cons Cons.IH) (auto simp: load_line_def Let_def)
qed

text \<open>
  Claim C9. Loading a playlist file that exists succeeds, enters append mode with the file
  as target, and the membership index is exactly the set of normalized forms of the
  file's lines that, once trimmed, are non-empty and do not start with \<^verbatim>\<open>#\<close>. Loading a
  path that does not exist fails and leaves the session as it was. Outside append mode
  the membership query is false for every path.
\<close>
theorem membership_index_load:
  "(fs playlist_file = Some (File content) \<longrightarrow>
      fst (fst (load_existing_playlist s fs playlist_file)) \<and>
      existing_playlist (snd (load_existing_playlist s fs playlist_file))
        = as_posix ` {l \<in> strip ` set (readlines content). l \<noteq> [] \<and> \<not> startswith l ''#''} \<and>
      append_mode (snd (load_existing_playlist s fs playlist_file)) \<and>
      target_playlist_file (snd (load_existing_playlist s fs playlist_file))
        = Some playlist_file) \<and>
   (fs playlist_file = None \<longrightarrow>
      load_existing_playlist s fs playlist_file
        = ((False, PlaylistNotFound playlist_file), s)) \<and>
   (\<not> append_mode s \<longrightarrow> \<not> is_song_in_playlist s file_path)"
  by (simp add: load_existing_playlist_def Let_def foldl_load_line is_song_in_playlist_def)

text \<open>
  Claim C10. With an empty selection set, in create mode and in append mode alike,
  \<^verbatim>\<open>save_playlist\<close> returns False with the files and the session exactly as they were,
  and so does the save key.
\<close>
theorem save_with_empty_selection:
  assumes "selected_files s = {}"
  shows "save_playlist s fs line = Inr (False, s, fs, [NothingSelected]) \<and>
         (key inp = ''s'' \<or> key inp = ''S'' \<longrightarrow>
            handle_key s fs inp = Returned False s fs [NothingSelected])"
  using assms by (auto simp: save_playlist_def handle_key_def)

theorem search_filter_result_witness:
  "search_mode (search_music (init_session three_tracks 2) '' A '') \<and>
   filtered_files (search_music (init_session three_tracks 2) '' A '') = [1] \<and>
   map int (filter (\<lambda>k. name_matches '' A '' (three_tracks ! k)) [0..<length three_tracks]) = [1] \<and>
   \<not> search_mode (search_music (init_session three_tracks 2) ''  '') \<and>
   get_current_display_files (search_music (init_session three_tracks 2) ''  '') = [0, 1, 2]"
proof -
  let ?s = "init_session three_tracks 2"
  have k1: "\<exists>c \<in> set '' A ''. \<not> isspace c" by (simp add: isspace_def)
  have k2: "\<forall>c \<in> set ''  ''. isspace c" by (simp add: isspace_def)
  have ev: "filtered_files (search_music ?s '' A '') = [1]"
    by (simp add: search_music_def init_session_def three_tracks_def text_defs)
  have up: "map int [0..<length (music_files ?s)] = [0, 1, 2]"
    by (simp add: init_session_def three_tracks_def upt_rec)
  have mf: "music_files ?s = three_tracks" by (simp add: init_session_def)
  from search_filter_result[of "'' A ''" ?s] k1
  have a: "search_mode (search_music ?s '' A '')"
    "filtered_files (search_music ?s '' A '')
       = map int (filter (\<lambda>k. name_matches '' A '' (music_files ?s ! k))
                    [0..<length (music_files ?s)])"
    by blast+
  from search_filter_result[of "''  ''" ?s] k2
  have b: "\<not> search_mode (search_music ?s ''  '')"
    "get_current_display_files (search_music ?s ''  '') = map int [0..<length (music_files ?s)]"
    by blast+
  show ?thesis using a b ev up mf by simp
qed

theorem membership_index_load_witness:
  "playlist_dir ''messy.m3u'' = Some (File messy_m3u_text) \<and>
   existing_playlist (snd (load_existing_playlist (init_session three_tracks 2) playlist_dir ''messy.m3u''))
     = {''A/b.mp3'', ''A/e.mp3''} \<and>
   as_posix ` {l \<in> strip ` set (readlines messy_m3u_text). l \<noteq> [] \<and> \<not> startswith l ''#''}
     = {''A/b.mp3'', ''A/e.mp3''} \<and>
   playlist_dir ''none.m3u'' = None \<and>
   load_existing_playlist (init_session three_tracks 2) playlist_dir ''none.m3u''
     = ((False, PlaylistNotFound ''none.m3u''), init_session three_tracks 2) \<and>
   \<not> append_mode (init_session three_tracks 2) \<and>
   \<not> is_song_in_playlist (init_session three_tracks 2) ''A/b.mp3''"
proof -
  let ?s = "init_session three_tracks 2"
  have f1: "playlist_dir ''messy.m3u'' = Some (File messy_m3u_text)"
    and f2: "playlist_dir ''none.m3u'' = None"
    by (simp_all add: playlist_dir_def)
  have na: "\<not> append_mode ?s" by (simp add: init_session_def)
  have ev: "existing_playlist (snd (load_existing_playlist ?s playlist_dir ''messy.m3u''))
     = {''A/b.mp3'', ''A/e.mp3''}"
    by (simp add: load_existing_playlist_def f1 messy_m3u_text_def load_line_def
        CR_def LF_def text_defs insert_commute)
  note t = membership_index_load[of playlist_dir _ _ ?s]
  from t[of "''messy.m3u''" messy_m3u_text] f1
  have a: "existing_playlist (snd (load_existing_playlist ?s playlist_dir ''messy.m3u''))
        = as_posix ` {l \<in> strip ` set (readlines messy_m3u_text). l \<noteq> [] \<and> \<not> startswith l ''#''}"
    by blast
  from t[of "''none.m3u''"] f2
  have b: "load_existing_playlist ?s playlist_dir ''none.m3u''
     = ((False, PlaylistNotFound ''none.m3u''), ?s)"
    by blast
  from t[of "''none.m3u''" _ "''A/b.mp3''"] na
  have c: "\<not> is_song_in_playlist ?s ''A/b.mp3''" by blast
  show ?thesis using f1 f2 na ev a b c by simp
qed

theorem save_with_empty_selection_witness:
  "selected_files (init_session three_tracks 2) = {} \<and>
   \<not> append_mode (init_session three_tracks 2) \<and>
   save_playlist (init_session three_tracks 2) playlist_dir ''mix''
     = Inr (False, init_session three_tracks 2, playlist_dir, [NothingSelected]) \<and>
   selected_files (append_session\<lparr>selected_files := {}\<rparr>) = {} \<and>
   append_mode (append_session\<lparr>selected_files := {}\<rparr>) \<and>
   save_playlist (append_session\<lparr>selected_files := {}\<rparr>) playlist_dir ''y''
     = Inr (False, append_session\<lparr>selected_files := {}\<rparr>, playlist_dir, [NothingSelected])"
proof -
  have e1: "selected_files (init_session three_tracks 2) = {}"
    and m1: "\<not> append_mode (init_session three_tracks 2)"
    by (simp_all add: init_session_def)
  have e2: "selected_files (append_session\<lparr>selected_files := {}\<rparr>) = {}"
    and m2: "append_mode (append_session\<lparr>selected_files := {}\<rparr>)"
    by (simp_all add: append_session_def)
  show ?thesis
    using save_with_empty_selection[OF e1, of playlist_dir "''mix''"]
      save_with_empty_selection[OF e2, of playlist_dir "''y''"] e1 e2 m1 m2
    by simp
qed

section \<open>Export\<close>








subsection \<open>The exports of the example sessions\<close>


lemmas export_defs = selected_paths_def track_lines_def clean_path_def new_tracks_def
  duplicate_tracks_def append_report_def playlist_file_name_def isalnum_def
  is_song_in_playlist_def








end
